theory Spec2Isabelle
  imports Main "HOL-Library.Word" "HOL-Library.Monad_Syntax"
begin

unbundle bit_operations_syntax

section \<open>B+tree node codec, lookup and builder of godb (src/types/btree.go)\<close>

text \<open>
  A Go \<^verbatim>\<open>Node\<close> is a \<^verbatim>\<open>[]byte\<close>. The model takes a node to be a whole buffer whose
  length equals its capacity, so its contents are a list of bytes. Every index and
  position of the source is a \<^verbatim>\<open>uint16\<close> and wraps modulo \<open>2 ^ 16\<close>; they are
  \<open>16 word\<close> here. A run-time panic (a slice bound out of range, a read or write
  past the end of a slice) is the value \<open>None\<close>.

  The builder functions write through their destination slice into a buffer that the
  caller also holds, and read a second buffer that may or may not be the same one.
  The model therefore keeps the buffers in a store indexed by a buffer identity, and
  the builder functions take the identities of their destination and their source.
  The \<^verbatim>\<open>key\<close> and \<^verbatim>\<open>val\<close> arguments are taken by value (they are assumed not to share
  memory with the destination).
\<close>

type_synonym byte = "8 word"
type_synonym uint16 = "16 word"
type_synonym uint64 = "64 word"
type_synonym Node = "byte list"
type_synonym store = "nat \<Rightarrow> Node"

subsection \<open>Go slices and \<^verbatim>\<open>encoding/binary\<close>\<close>

text \<open>\<^verbatim>\<open>b[lo:]\<close>, \<^verbatim>\<open>b[:hi]\<close> and \<^verbatim>\<open>b[lo:hi]\<close>, which panic when a bound is out of range.\<close>

definition sliceFrom :: "byte list \<Rightarrow> nat \<Rightarrow> byte list option" where
  "sliceFrom b lo = (if lo \<le> length b then Some (drop lo b) else None)"

definition sliceTo :: "byte list \<Rightarrow> nat \<Rightarrow> byte list option" where
  "sliceTo b hi = (if hi \<le> length b then Some (take hi b) else None)"

definition slice :: "byte list \<Rightarrow> nat \<Rightarrow> nat \<Rightarrow> byte list option" where
  "slice b lo hi =
     (if lo \<le> hi \<and> hi \<le> length b then Some (take (hi - lo) (drop lo b)) else None)"

text \<open>
  A write through a sub-slice changes the buffer it was cut from: \<open>updFrom b lo f\<close>
  runs the writer \<open>f\<close> on \<^verbatim>\<open>b[lo:]\<close> and puts the result back, \<open>updSlice b lo hi f\<close>
  does so for \<^verbatim>\<open>b[lo:hi]\<close>.
\<close>

definition updFrom ::
  "byte list \<Rightarrow> nat \<Rightarrow> (byte list \<Rightarrow> byte list option) \<Rightarrow> byte list option" where
  "updFrom b lo f =
     (case sliceFrom b lo of
        None \<Rightarrow> None
      | Some d \<Rightarrow> (case f d of None \<Rightarrow> None | Some d' \<Rightarrow> Some (take lo b @ d')))"

definition updSlice ::
  "byte list \<Rightarrow> nat \<Rightarrow> nat \<Rightarrow> (byte list \<Rightarrow> byte list option) \<Rightarrow> byte list option" where
  "updSlice b lo hi f =
     (case slice b lo hi of
        None \<Rightarrow> None
      | Some d \<Rightarrow> (case f d of None \<Rightarrow> None | Some d' \<Rightarrow> Some (take lo b @ d' @ drop hi b)))"

text \<open>The builtin \<^verbatim>\<open>copy(dst, src)\<close>: it copies \<open>min (len dst) (len src)\<close> bytes and never panics.\<close>

definition copy :: "byte list \<Rightarrow> byte list \<Rightarrow> byte list" where
  "copy dst src =
     take (min (length dst) (length src)) src @ drop (min (length dst) (length src)) dst"

text \<open>\<^verbatim>\<open>binary.LittleEndian\<close>: each function first touches the last byte it needs.\<close>

definition Uint16 :: "byte list \<Rightarrow> uint16 option" where
  "Uint16 b =
     (if length b < 2 then None
      else Some (ucast (b ! 0) OR push_bit 8 (ucast (b ! 1))))"

definition PutUint16 :: "uint16 \<Rightarrow> byte list \<Rightarrow> byte list option" where
  "PutUint16 v b =
     (if length b < 2 then None
      else Some (b[0 := ucast v, 1 := ucast (drop_bit 8 v)]))"

definition Uint64 :: "byte list \<Rightarrow> uint64 option" where
  "Uint64 b =
     (if length b < 8 then None
      else Some (ucast (b ! 0) OR push_bit 8 (ucast (b ! 1)) OR push_bit 16 (ucast (b ! 2))
                 OR push_bit 24 (ucast (b ! 3)) OR push_bit 32 (ucast (b ! 4))
                 OR push_bit 40 (ucast (b ! 5)) OR push_bit 48 (ucast (b ! 6))
                 OR push_bit 56 (ucast (b ! 7))))"

definition PutUint64 :: "uint64 \<Rightarrow> byte list \<Rightarrow> byte list option" where
  "PutUint64 v b =
     (if length b < 8 then None
      else Some (b[0 := ucast v, 1 := ucast (drop_bit 8 v), 2 := ucast (drop_bit 16 v),
                   3 := ucast (drop_bit 24 v), 4 := ucast (drop_bit 32 v),
                   5 := ucast (drop_bit 40 v), 6 := ucast (drop_bit 48 v),
                   7 := ucast (drop_bit 56 v)]))"

text \<open>\<^verbatim>\<open>bytes.Compare\<close> (lexicographic, \<open>-1\<close>, \<open>0\<close> or \<open>1\<close>) and \<^verbatim>\<open>bytes.Equal\<close>.\<close>

fun bytesCompare :: "byte list \<Rightarrow> byte list \<Rightarrow> int" where
  "bytesCompare [] [] = 0"
| "bytesCompare [] (y # ys) = - 1"
| "bytesCompare (x # xs) [] = 1"
| "bytesCompare (x # xs) (y # ys) =
     (if x < y then - 1 else if y < x then 1 else bytesCompare xs ys)"

definition bytesEqual :: "byte list \<Rightarrow> byte list \<Rightarrow> bool" where
  "bytesEqual a b = (a = b)"

subsection \<open>Constants\<close>

definition HEADER_SIZE :: uint16 where "HEADER_SIZE = 4"
definition BTREE_PAGE_SIZE :: nat where "BTREE_PAGE_SIZE = 4096"
definition BTREE_MAX_KEY_SIZE :: nat where "BTREE_MAX_KEY_SIZE = 1000"
definition BTREE_MAX_VAL_SIZE :: nat where "BTREE_MAX_VAL_SIZE = 3000"
definition BNODE_INTERNAL_TYPE :: uint16 where "BNODE_INTERNAL_TYPE = 0"
definition BNODE_LEAF_TYPE :: uint16 where "BNODE_LEAF_TYPE = 1"

subsection \<open>The codec\<close>

definition btype :: "Node \<Rightarrow> uint16 option" where
  "btype node = sliceTo node 2 \<bind> Uint16"

definition nkeys :: "Node \<Rightarrow> uint16 option" where
  "nkeys node = slice node 2 4 \<bind> Uint16"

definition setHeader :: "Node \<Rightarrow> uint16 \<Rightarrow> uint16 \<Rightarrow> Node option" where
  "setHeader node bt nk =
     updSlice node 0 2 (PutUint16 bt) \<bind> (\<lambda>node1. updSlice node1 2 4 (PutUint16 nk))"

definition getPtr :: "Node \<Rightarrow> uint16 \<Rightarrow> uint64 option" where
  "getPtr node idx =
     (let pos = HEADER_SIZE + 8 * idx in sliceFrom node (unat pos) \<bind> Uint64)"

definition setPtr :: "Node \<Rightarrow> uint16 \<Rightarrow> uint64 \<Rightarrow> Node option" where
  "setPtr node idx v =
     (let pos = HEADER_SIZE + 8 * idx in updFrom node (unat pos) (PutUint64 v))"

definition offsetIdx :: "Node \<Rightarrow> uint16 \<Rightarrow> uint16 option" where
  "offsetIdx node pos = nkeys node \<bind> (\<lambda>n. Some (HEADER_SIZE + 8 * n + 2 * (pos - 1)))"

definition getOffset :: "Node \<Rightarrow> uint16 \<Rightarrow> uint16 option" where
  "getOffset node idx =
     (if idx = 0 then Some 0
      else offsetIdx node idx \<bind> (\<lambda>p. sliceFrom node (unat p) \<bind> Uint16))"

definition setOffset :: "Node \<Rightarrow> uint16 \<Rightarrow> uint16 \<Rightarrow> Node option" where
  "setOffset node idx offset =
     offsetIdx node idx \<bind> (\<lambda>p. updFrom node (unat p) (PutUint16 offset))"

definition kvPos :: "Node \<Rightarrow> uint16 \<Rightarrow> uint16 option" where
  "kvPos node idx =
     nkeys node \<bind> (\<lambda>n. getOffset node idx \<bind> (\<lambda>off.
       Some (HEADER_SIZE + 8 * n + 2 * n + off)))"

definition getKey :: "Node \<Rightarrow> uint16 \<Rightarrow> byte list option" where
  "getKey node idx =
     kvPos node idx \<bind> (\<lambda>pos.
     sliceFrom node (unat pos) \<bind> Uint16 \<bind> (\<lambda>klen.
     sliceFrom node (unat (pos + 4)) \<bind> (\<lambda>b. sliceTo b (unat klen))))"

definition getVal :: "Node \<Rightarrow> uint16 \<Rightarrow> byte list option" where
  "getVal node idx =
     kvPos node idx \<bind> (\<lambda>pos.
     sliceFrom node (unat pos) \<bind> Uint16 \<bind> (\<lambda>klen.
     sliceFrom node (unat (pos + klen)) \<bind> Uint16 \<bind> (\<lambda>vlen.
     sliceFrom node (unat (pos + 4)) \<bind> (\<lambda>b.
     sliceFrom b (unat klen) \<bind> (\<lambda>b'. sliceTo b' (unat vlen))))))"

definition nbytes :: "Node \<Rightarrow> uint16 option" where
  "nbytes node = nkeys node \<bind> kvPos node"

text \<open>
  The second copy of the codec (src/unnamed/part\_000) differs from the first in
  \<^verbatim>\<open>setOffset\<close> only: it names the position function \<^verbatim>\<open>offsetPos\<close> and returns at
  once when the index is 0.
\<close>

definition offsetPos :: "Node \<Rightarrow> uint16 \<Rightarrow> uint16 option" where
  "offsetPos node idx = nkeys node \<bind> (\<lambda>n. Some (HEADER_SIZE + 8 * n + 2 * (idx - 1)))"

definition setOffset_part0 :: "Node \<Rightarrow> uint16 \<Rightarrow> uint16 \<Rightarrow> Node option" where
  "setOffset_part0 node idx offset =
     (if idx = 0 then Some node
      else offsetPos node idx \<bind> (\<lambda>p. updFrom node (unat p) (PutUint16 offset)))"

subsection \<open>The lookup engine\<close>

text \<open>
  The loop \<^verbatim>\<open>for i := uint16(1); i < nkeys; i++\<close> of \<^verbatim>\<open>nodeLookupLE\<close>, entered at
  index \<open>i\<close> with the current value of \<^verbatim>\<open>found\<close>.
\<close>

function nodeLookupLE_loop ::
  "Node \<Rightarrow> byte list \<Rightarrow> uint16 \<Rightarrow> uint16 \<Rightarrow> uint16 \<Rightarrow> uint16 option" where
  "nodeLookupLE_loop node key nk i found =
     (if i < nk then
        (case getKey node i of
           None \<Rightarrow> None
         | Some k \<Rightarrow>
             (let cmp = bytesCompare k key;
                  found' = (if cmp \<le> 0 then i else found)
              in if cmp \<ge> 0 then Some found'
                 else nodeLookupLE_loop node key nk (i + 1) found'))
      else Some found)"
  by pat_completeness auto
termination
  by (relation "measure (\<lambda>(node, key, nk, i, found). unat nk - unat i)")
     (simp, simp, unat_arith)

definition nodeLookupLE :: "Node \<Rightarrow> byte list \<Rightarrow> uint16 option" where
  "nodeLookupLE node key = nkeys node \<bind> (\<lambda>nk. nodeLookupLE_loop node key nk 1 0)"

function nodeLookupEQ_loop :: "Node \<Rightarrow> byte list \<Rightarrow> uint16 \<Rightarrow> uint16 \<Rightarrow> uint16 option" where
  "nodeLookupEQ_loop node key nk i =
     (if i < nk then
        (case getKey node i of
           None \<Rightarrow> None
         | Some k \<Rightarrow> if bytesEqual k key then Some i else nodeLookupEQ_loop node key nk (i + 1))
      else Some 0)"
  by pat_completeness auto
termination
  by (relation "measure (\<lambda>(node, key, nk, i). unat nk - unat i)")
     (simp, simp, unat_arith)

definition nodeLookupEQ :: "Node \<Rightarrow> byte list \<Rightarrow> uint16 option" where
  "nodeLookupEQ node key = nkeys node \<bind> (\<lambda>nk. nodeLookupEQ_loop node key nk 1)"

subsection \<open>The node builder\<close>

text \<open>
  \<^verbatim>\<open>nodeAppendRange(new, old, dstNew, srcOld, n)\<close>: the destination position is
  \<^verbatim>\<open>new.kvPos(srcOld)\<close>, the source position is \<^verbatim>\<open>old.kvPos(dstNew)\<close>, and the two
  slices handed to \<^verbatim>\<open>copy\<close> are \<open>n\<close> bytes long.
\<close>

definition nodeAppendRange ::
  "store \<Rightarrow> nat \<Rightarrow> nat \<Rightarrow> uint16 \<Rightarrow> uint16 \<Rightarrow> uint16 \<Rightarrow> store option" where
  "nodeAppendRange s new old dstNew srcOld n =
     kvPos (s new) srcOld \<bind> (\<lambda>dstNewPos.
     kvPos (s old) dstNew \<bind> (\<lambda>srcOldPos.
     slice (s new) (unat dstNewPos) (unat (dstNewPos + n)) \<bind> (\<lambda>_.
     slice (s old) (unat srcOldPos) (unat (srcOldPos + n)) \<bind> (\<lambda>src.
     updSlice (s new) (unat dstNewPos) (unat (dstNewPos + n)) (\<lambda>dst. Some (copy dst src))
       \<bind> (\<lambda>node'. Some (s(new := node')))))))"

definition nodeAppendKV ::
  "store \<Rightarrow> nat \<Rightarrow> uint16 \<Rightarrow> uint64 \<Rightarrow> byte list \<Rightarrow> byte list \<Rightarrow> store option" where
  "nodeAppendKV s new idx ptr key val =
     setPtr (s new) idx ptr \<bind> (\<lambda>n1.
     kvPos n1 idx \<bind> (\<lambda>pos.
     updFrom n1 (unat pos) (PutUint16 (of_nat (length key))) \<bind> (\<lambda>n2.
     updFrom n2 (unat (pos + 2)) (PutUint16 (of_nat (length val))) \<bind> (\<lambda>n3.
     updFrom n3 (unat (pos + 4)) (\<lambda>dst. Some (copy dst key)) \<bind> (\<lambda>n4.
     updFrom n4 (unat (pos + 4 + of_nat (length key))) (\<lambda>dst. Some (copy dst val)) \<bind> (\<lambda>n5.
     getOffset n5 idx \<bind> (\<lambda>off.
     setOffset n5 (idx + 1) (off + 4 + of_nat (length key + length val)) \<bind> (\<lambda>n6.
     Some (s(new := n6))))))))))"

definition leafInsert ::
  "store \<Rightarrow> nat \<Rightarrow> nat \<Rightarrow> uint16 \<Rightarrow> byte list \<Rightarrow> byte list \<Rightarrow> store option" where
  "leafInsert s new old idx key val =
     nkeys (s old) \<bind> (\<lambda>nk.
     setHeader (s new) BNODE_LEAF_TYPE (nk + 1) \<bind> (\<lambda>node1.
     nodeAppendRange (s(new := node1)) new old 0 0 idx \<bind> (\<lambda>s2.
     nodeAppendKV s2 new idx 0 key val \<bind> (\<lambda>s3.
     nkeys (s3 old) \<bind> (\<lambda>nk'.
     nodeAppendRange s3 new old (idx + 1) idx (nk' - idx))))))"

subsection \<open>Specification predicates and example buffers\<close>

text \<open>
  The keys a lookup compares are those at the indices \<open>1 .. nk - 1\<close>. They are readable
  when \<^verbatim>\<open>getKey\<close> does not panic on them, and strictly ascending when
  \<^verbatim>\<open>bytes.Compare\<close> orders them so.
\<close>

definition keysReadable :: "Node \<Rightarrow> uint16 \<Rightarrow> bool" where
  "keysReadable node nk = (\<forall>j. 1 \<le> j \<and> j < nk \<longrightarrow> getKey node j \<noteq> None)"

definition keysAscending :: "Node \<Rightarrow> uint16 \<Rightarrow> bool" where
  "keysAscending node nk =
     (\<forall>i j ki kj. 1 \<le> i \<and> i < j \<and> j < nk \<and> getKey node i = Some ki \<and> getKey node j = Some kj
        \<longrightarrow> bytesCompare ki kj < 0)"

text \<open>
  A page holding the leaf with keys \<open>b, d, f\<close> and values \<open>2, 4, 6\<close>; a page holding a
  leaf with the eight keys \<open>a .. h\<close>, each with itself as value; a zeroed page; a page
  whose header announces a leaf with \<open>n\<close> keys and is zero elsewhere; a page that is zero
  but for the bytes 42 and 43, which hold the 16-bit value 5000.
\<close>

definition leaf_bdf :: Node where
  "leaf_bdf = [1, 0, 3, 0] @ replicate 24 0 @ [6, 0, 12, 0, 18, 0]
     @ [1, 0, 1, 0, 0x62, 0x32] @ [1, 0, 1, 0, 0x64, 0x34] @ [1, 0, 1, 0, 0x66, 0x36]
     @ replicate 4044 0"

definition leaf8 :: Node where
  "leaf8 = [1, 0, 8, 0] @ replicate 64 0
     @ [6, 0, 12, 0, 18, 0, 24, 0, 30, 0, 36, 0, 42, 0, 48, 0]
     @ [1, 0, 1, 0, 0x61, 0x61] @ [1, 0, 1, 0, 0x62, 0x62] @ [1, 0, 1, 0, 0x63, 0x63]
     @ [1, 0, 1, 0, 0x64, 0x64] @ [1, 0, 1, 0, 0x65, 0x65] @ [1, 0, 1, 0, 0x66, 0x66]
     @ [1, 0, 1, 0, 0x67, 0x67] @ [1, 0, 1, 0, 0x68, 0x68]
     @ replicate 3964 0"

definition zeroPage :: Node where
  "zeroPage = replicate 4096 0"

definition blankLeaf :: "byte \<Rightarrow> Node" where
  "blankLeaf n = [1, 0, n, 0] @ replicate 4092 0"

definition stalePage :: Node where
  "stalePage = replicate 42 0 @ [0x88, 0x13] @ replicate 4052 0"

text \<open>A store with the destination as buffer 0 and the source as buffer 1.\<close>

definition twoBuffers :: "Node \<Rightarrow> Node \<Rightarrow> store" where
  "twoBuffers d s = (\<lambda>_. [])(0 := d, 1 := s)"

text \<open>Two buffers of the same length that hold the same bytes below position \<open>m\<close>.\<close>

definition agreeBelow :: "nat \<Rightarrow> byte list \<Rightarrow> byte list \<Rightarrow> bool" where
  "agreeBelow m b b' = (length b' = length b \<and> (\<forall>i<m. b' ! i = b ! i))"

text \<open>
  For a node with \<open>nk + 1\<close> keys the offset table lies in the bytes \<open>12 + 8 nk\<close> to
  \<open>13 + 10 nk\<close>. A buffer has a clean table when its header announces \<open>nk + 1\<close> keys and
  every byte of that table is zero; two buffers agree on the table when they have the
  same length, the same key count bytes and the same table bytes.
\<close>

definition tableClean :: "uint16 \<Rightarrow> Node \<Rightarrow> bool" where
  "tableClean nk b =
     (nkeys b = Some (nk + 1)
      \<and> (\<forall>i. 12 + 8 * unat nk \<le> i \<and> i < 14 + 10 * unat nk \<and> i < length b \<longrightarrow> b ! i = 0))"

definition agreeTable :: "uint16 \<Rightarrow> Node \<Rightarrow> Node \<Rightarrow> bool" where
  "agreeTable nk b b' =
     (length b' = length b \<and> b' ! 2 = b ! 2 \<and> b' ! 3 = b ! 3
      \<and> (\<forall>i. 12 + 8 * unat nk \<le> i \<and> i < 14 + 10 * unat nk \<longrightarrow> b' ! i = b ! i))"

section \<open>Properties\<close>

lemmas codec_defs =
  btype_def nkeys_def getPtr_def offsetIdx_def getOffset_def kvPos_def getKey_def getVal_def
  nbytes_def slice_def sliceFrom_def sliceTo_def Uint16_def Uint64_def HEADER_SIZE_def

lemmas builder_defs =
  leafInsert_def nodeAppendRange_def nodeAppendKV_def setHeader_def setPtr_def setOffset_def
  updFrom_def updSlice_def PutUint16_def PutUint64_def copy_def BNODE_LEAF_TYPE_def

subsection \<open>The order of \<^verbatim>\<open>bytes.Compare\<close>\<close>

lemma bytesCompare_eq0: "bytesCompare a b = 0 \<longleftrightarrow> a = b"
  by (induction a b rule: bytesCompare.induct) auto

lemma bytesCompare_flip: "bytesCompare b a = - bytesCompare a b"
  by (induction a b rule: bytesCompare.induct) auto

lemma bytesCompare_trans:
  "bytesCompare a b < 0 \<Longrightarrow> bytesCompare b c < 0 \<Longrightarrow> bytesCompare a c < 0"
proof (induction a arbitrary: b c)
  case Nil
  then show ?case by (cases b; cases c) auto
next
  case (Cons x xs)
  show ?case
  proof (cases b)
    case Nil
    with Cons.prems show ?thesis by simp
  next
    case b: (Cons y ys)
    show ?thesis
    proof (cases c)
      case Nil
      with b Cons.prems show ?thesis by simp
    next
      case c: (Cons z zs)
      show ?thesis
      proof (cases "x = y \<and> y = z")
        case True
        with Cons.prems b c have "bytesCompare xs ys < 0" "bytesCompare ys zs < 0" by auto
        then have "bytesCompare xs zs < 0" by (rule Cons.IH)
        with True c show ?thesis by simp
      next
        case False
        with Cons.prems b c show ?thesis by (auto split: if_splits)
      qed
    qed
  qed
qed

subsection \<open>Stepping a 16-bit loop index\<close>

lemma word_succ_cases: "(i::uint16) < nk \<Longrightarrow> i \<le> j \<Longrightarrow> j = i \<or> i + 1 \<le> j"
  by unat_arith

lemma word_succ_le: "(i::uint16) < nk \<Longrightarrow> i + 1 \<le> j \<Longrightarrow> i < j"
  by unat_arith

lemma word_less_succ: "(i::uint16) < nk \<Longrightarrow> i < j \<Longrightarrow> i + 1 \<le> j"
  by unat_arith

lemma word_one_le_succ: "(i::uint16) < nk \<Longrightarrow> 1 \<le> i + 1"
  by unat_arith

subsection \<open>The lookup loops\<close>

lemma EQ_loop_spec:
  "nodeLookupEQ_loop node key nk i = Some r \<Longrightarrow> 1 \<le> i \<Longrightarrow>
     (r = 0 \<and> (\<forall>j. i \<le> j \<and> j < nk \<longrightarrow> getKey node j \<noteq> Some key))
   \<or> (i \<le> r \<and> r < nk \<and> getKey node r = Some key
        \<and> (\<forall>j. i \<le> j \<and> j < r \<longrightarrow> getKey node j \<noteq> Some key))"
proof (induction node key nk i rule: nodeLookupEQ_loop.induct)
  case (1 node key nk i)
  show ?case
  proof (cases "i < nk")
    case False
    with "1.prems" have "r = 0" by simp
    with False show ?thesis by auto
  next
    case True
    then obtain k where k: "getKey node i = Some k"
      using "1.prems" by (cases "getKey node i") auto
    show ?thesis
    proof (cases "bytesEqual k key")
      case eq: True
      with True k "1.prems" have "r = i" by simp
      with eq k True show ?thesis by (auto simp: bytesEqual_def)
    next
      case False
      with True k "1.prems" have run: "nodeLookupEQ_loop node key nk (i + 1) = Some r" by simp
      have "1 \<le> i + 1" using True by (rule word_one_le_succ)
      with "1.IH"[OF True k False run]
      have IH: "(r = 0 \<and> (\<forall>j. i + 1 \<le> j \<and> j < nk \<longrightarrow> getKey node j \<noteq> Some key))
        \<or> (i + 1 \<le> r \<and> r < nk \<and> getKey node r = Some key
            \<and> (\<forall>j. i + 1 \<le> j \<and> j < r \<longrightarrow> getKey node j \<noteq> Some key))" by simp
      have here: "getKey node i \<noteq> Some key" using k False by (simp add: bytesEqual_def)
      have step: "\<And>j. i \<le> j \<Longrightarrow> j = i \<or> i + 1 \<le> j" using True by (rule word_succ_cases)
      from IH show ?thesis
      proof
        assume a: "r = 0 \<and> (\<forall>j. i + 1 \<le> j \<and> j < nk \<longrightarrow> getKey node j \<noteq> Some key)"
        then have "\<forall>j. i \<le> j \<and> j < nk \<longrightarrow> getKey node j \<noteq> Some key"
          using here step by blast
        with a show ?thesis by blast
      next
        assume a: "i + 1 \<le> r \<and> r < nk \<and> getKey node r = Some key
            \<and> (\<forall>j. i + 1 \<le> j \<and> j < r \<longrightarrow> getKey node j \<noteq> Some key)"
        then have "i < r" using True word_succ_le by blast
        moreover have "\<forall>j. i \<le> j \<and> j < r \<longrightarrow> getKey node j \<noteq> Some key"
          using a here step by blast
        ultimately show ?thesis using a by auto
      qed
    qed
  qed
qed

lemma EQ_loop_returns:
  "(\<forall>j. i \<le> j \<and> j < nk \<longrightarrow> getKey node j \<noteq> None) \<Longrightarrow>
   \<exists>r. nodeLookupEQ_loop node key nk i = Some r"
proof (induction node key nk i rule: nodeLookupEQ_loop.induct)
  case (1 node key nk i)
  show ?case
  proof (cases "i < nk")
    case False
    then show ?thesis by simp
  next
    case True
    with "1.prems" obtain k where k: "getKey node i = Some k" by auto
    show ?thesis
    proof (cases "bytesEqual k key")
      case eq: True
      with True k show ?thesis by simp
    next
      case False
      have "\<forall>j. i + 1 \<le> j \<and> j < nk \<longrightarrow> getKey node j \<noteq> None"
        using "1.prems" True word_succ_le by (metis order_less_imp_le)
      from "1.IH"[OF True k False this] True k False show ?thesis by simp
    qed
  qed
qed

lemma LE_loop_spec:
  "keysAscending node nk \<Longrightarrow> 1 \<le> i \<Longrightarrow> (\<forall>j. i \<le> j \<and> j < nk \<longrightarrow> getKey node j \<noteq> None) \<Longrightarrow>
     \<exists>r. nodeLookupLE_loop node key nk i found = Some r \<and>
       ((r = found \<and> (\<forall>j kj. i \<le> j \<and> j < nk \<and> getKey node j = Some kj \<longrightarrow> 0 < bytesCompare kj key))
      \<or> (i \<le> r \<and> r < nk \<and> (\<exists>kr. getKey node r = Some kr \<and> bytesCompare kr key \<le> 0)
          \<and> (\<forall>j kj. r < j \<and> j < nk \<and> getKey node j = Some kj \<longrightarrow> 0 < bytesCompare kj key)))"
proof (induction node key nk i found rule: nodeLookupLE_loop.induct)
  case (1 node key nk i found)
  note asc = "1.prems"(1)
  show ?case
  proof (cases "i < nk")
    case False
    then show ?thesis by auto
  next
    case True
    with "1.prems" obtain ki where ki: "getKey node i = Some ki" by auto
    have later: "0 < bytesCompare kj key"
      if "0 \<le> bytesCompare ki key" "i < j" "j < nk" "getKey node j = Some kj" for j kj
    proof -
      have "bytesCompare ki kj < 0"
        using asc "1.prems"(2) that ki unfolding keysAscending_def by blast
      show ?thesis
      proof (cases "bytesCompare ki key = 0")
        case True
        then have "ki = key" by (simp add: bytesCompare_eq0)
        with \<open>bytesCompare ki kj < 0\<close> show ?thesis
          using bytesCompare_flip[of kj key] by simp
      next
        case False
        with that(1) have "bytesCompare key ki < 0"
          using bytesCompare_flip[of ki key] by simp
        then have "bytesCompare key kj < 0"
          using \<open>bytesCompare ki kj < 0\<close> by (rule bytesCompare_trans)
        then show ?thesis using bytesCompare_flip[of kj key] by simp
      qed
    qed
    consider (gt) "0 < bytesCompare ki key" | (eq) "bytesCompare ki key = 0"
      | (lt) "bytesCompare ki key < 0" by linarith
    then show ?thesis
    proof cases
      case gt
      then have res: "nodeLookupLE_loop node key nk i found = Some found"
        using True ki by simp
      have "0 < bytesCompare kj key" if "i \<le> j" "j < nk" "getKey node j = Some kj" for j kj
      proof (cases "j = i")
        case True
        with that ki gt show ?thesis by simp
      next
        case False
        with that have "i < j" by simp
        with later[of j kj] gt that show ?thesis by simp
      qed
      with res show ?thesis by blast
    next
      case eq
      then have res: "nodeLookupLE_loop node key nk i found = Some i"
        using True ki by simp
      have "\<forall>j kj. i < j \<and> j < nk \<and> getKey node j = Some kj \<longrightarrow> 0 < bytesCompare kj key"
        using later eq by auto
      with res True ki eq show ?thesis by auto
    next
      case lt
      then have res: "nodeLookupLE_loop node key nk i found = nodeLookupLE_loop node key nk (i + 1) i"
        using True ki by simp
      have one: "1 \<le> i + 1" using True by (rule word_one_le_succ)
      have rd: "\<forall>j. i + 1 \<le> j \<and> j < nk \<longrightarrow> getKey node j \<noteq> None"
        using "1.prems"(3) True word_succ_le by (metis order_less_imp_le)
      have neg: "\<not> 0 \<le> bytesCompare ki key" using lt by simp
      have "\<exists>r. nodeLookupLE_loop node key nk (i + 1) i = Some r \<and>
       ((r = i \<and> (\<forall>j kj. i + 1 \<le> j \<and> j < nk \<and> getKey node j = Some kj \<longrightarrow> 0 < bytesCompare kj key))
      \<or> (i + 1 \<le> r \<and> r < nk \<and> (\<exists>kr. getKey node r = Some kr \<and> bytesCompare kr key \<le> 0)
          \<and> (\<forall>j kj. r < j \<and> j < nk \<and> getKey node j = Some kj \<longrightarrow> 0 < bytesCompare kj key)))"
        using "1.IH"[OF True ki refl refl neg asc one rd] lt by simp
      then obtain r where r: "nodeLookupLE_loop node key nk (i + 1) i = Some r"
        and alt: "(r = i \<and> (\<forall>j kj. i + 1 \<le> j \<and> j < nk \<and> getKey node j = Some kj \<longrightarrow> 0 < bytesCompare kj key))
      \<or> (i + 1 \<le> r \<and> r < nk \<and> (\<exists>kr. getKey node r = Some kr \<and> bytesCompare kr key \<le> 0)
          \<and> (\<forall>j kj. r < j \<and> j < nk \<and> getKey node j = Some kj \<longrightarrow> 0 < bytesCompare kj key))"
        by blast
      from alt have "i \<le> r \<and> r < nk \<and> (\<exists>kr. getKey node r = Some kr \<and> bytesCompare kr key \<le> 0)
          \<and> (\<forall>j kj. r < j \<and> j < nk \<and> getKey node j = Some kj \<longrightarrow> 0 < bytesCompare kj key)"
      proof
        assume a: "r = i \<and> (\<forall>j kj. i + 1 \<le> j \<and> j < nk \<and> getKey node j = Some kj \<longrightarrow> 0 < bytesCompare kj key)"
        have "\<forall>j kj. i < j \<and> j < nk \<and> getKey node j = Some kj \<longrightarrow> 0 < bytesCompare kj key"
          using a True word_less_succ by blast
        with a True ki lt show ?thesis by auto
      next
        assume a: "i + 1 \<le> r \<and> r < nk \<and> (\<exists>kr. getKey node r = Some kr \<and> bytesCompare kr key \<le> 0)
          \<and> (\<forall>j kj. r < j \<and> j < nk \<and> getKey node j = Some kj \<longrightarrow> 0 < bytesCompare kj key)"
        then have "i < r" using True word_succ_le by blast
        with a show ?thesis by auto
      qed
      with res r show ?thesis by auto
    qed
  qed
qed

lemma LE_loop_bound:
  "nodeLookupLE_loop node key nk i found = Some r \<Longrightarrow> r = found \<or> (i \<le> r \<and> r < nk)"
proof (induction node key nk i found rule: nodeLookupLE_loop.induct)
  case (1 node key nk i found)
  show ?case
  proof (cases "i < nk")
    case False
    with "1.prems" show ?thesis by simp
  next
    case True
    then obtain ki where ki: "getKey node i = Some ki"
      using "1.prems" by (cases "getKey node i") auto
    show ?thesis
    proof (cases "0 \<le> bytesCompare ki key")
      case stop: True
      with True ki "1.prems" have "r = found \<or> r = i" by (auto split: if_splits)
      with True show ?thesis by auto
    next
      case False
      then have lt: "bytesCompare ki key \<le> 0" by simp
      from False True ki "1.prems" lt
      have run: "nodeLookupLE_loop node key nk (i + 1) i = Some r" by simp
      from "1.IH"[OF True ki refl refl False] run lt
      have "r = i \<or> (i + 1 \<le> r \<and> r < nk)" by simp
      moreover have "i < r" if "i + 1 \<le> r" using True that by (rule word_succ_le)
      ultimately show ?thesis using True by auto
    qed
  qed
qed

subsection \<open>Facts about the example leaf\<close>

lemma nkeys_leaf_bdf: "nkeys leaf_bdf = Some 3"
  by (simp add: codec_defs leaf_bdf_def)

lemma getKey_leaf_bdf:
  "getKey leaf_bdf 1 = Some [0x64]" "getKey leaf_bdf 2 = Some [0x66]"
  by (simp_all add: codec_defs leaf_bdf_def nth_append)

lemma index_below_3: "(1 :: uint16) \<le> j \<Longrightarrow> j < 3 \<Longrightarrow> j = 1 \<or> j = 2"
  by unat_arith

lemma nodeLookupLE_leaf_bdf: "nodeLookupLE leaf_bdf [0x65] = Some 1"
  by (simp add: nodeLookupLE_def nkeys_leaf_bdf getKey_leaf_bdf)

lemma nodeLookupEQ_leaf_bdf: "nodeLookupEQ leaf_bdf [0x66] = Some 2"
  by (simp add: nodeLookupEQ_def nkeys_leaf_bdf getKey_leaf_bdf bytesEqual_def)

lemma keysReadable_leaf_bdf: "keysReadable leaf_bdf 3"
proof -
  have "getKey leaf_bdf j \<noteq> None" if "1 \<le> j" "j < 3" for j
  proof -
    from that have "j = 1 \<or> j = 2" by (rule index_below_3)
    then show ?thesis using getKey_leaf_bdf by auto
  qed
  then show ?thesis by (simp add: keysReadable_def)
qed

lemma keysAscending_leaf_bdf: "keysAscending leaf_bdf 3"
proof -
  have "bytesCompare ki kj < 0"
    if "1 \<le> i" "i < j" "j < 3" "getKey leaf_bdf i = Some ki" "getKey leaf_bdf j = Some kj"
    for i j ki kj
  proof -
    have "1 \<le> j" using that(1,2) by simp
    then have j: "j = 1 \<or> j = 2" using that(3) by (rule index_below_3)
    have "i < 3" using that(2,3) by simp
    with that(1) have i: "i = 1 \<or> i = 2" by (rule index_below_3)
    from i j that(2) have "i = 1" "j = 2" by auto
    with that(4,5) show ?thesis by (auto simp: getKey_leaf_bdf)
  qed
  then show ?thesis unfolding keysAscending_def by blast
qed

lemma leafInsert_bdf_returns:
  "\<exists>s'. leafInsert (twoBuffers zeroPage leaf_bdf) 0 1 1 [0x63] [0x33] = Some s'"
  by (simp add: codec_defs builder_defs twoBuffers_def zeroPage_def leaf_bdf_def nth_append)

subsection \<open>Writes of the builder stay in the destination buffer\<close>

lemma nodeAppendRange_frame:
  "nodeAppendRange s new old dstNew srcOld n = Some s' \<Longrightarrow> b \<noteq> new \<Longrightarrow> s' b = s b"
  by (auto simp: nodeAppendRange_def split: Option.bind_splits)

lemma nodeAppendKV_frame:
  "nodeAppendKV s new idx ptr key val = Some s' \<Longrightarrow> b \<noteq> new \<Longrightarrow> s' b = s b"
  by (auto simp: nodeAppendKV_def split: Option.bind_splits)

lemma leafInsert_frame:
  assumes "leafInsert s new old idx key val = Some s'" and "b \<noteq> new"
  shows "s' b = s b"
proof -
  from assms(1) obtain nk node1 s2 s3 nk' where
    "nodeAppendRange (s(new := node1)) new old 0 0 idx = Some s2"
    "nodeAppendKV s2 new idx 0 key val = Some s3"
    "nodeAppendRange s3 new old (idx + 1) idx (nk' - idx) = Some s'"
    by (auto simp: leafInsert_def split: Option.bind_splits)
  then have "s' b = s3 b" "s3 b = s2 b" "s2 b = (s(new := node1)) b"
    using assms(2) by (auto dest: nodeAppendRange_frame nodeAppendKV_frame)
  then show ?thesis using assms(2) by simp
qed

subsection \<open>Reads and writes of the codec, byte by byte\<close>

lemma Uint16_roundtrip:
  "ucast (ucast v :: byte) OR push_bit 8 (ucast (ucast (drop_bit 8 v) :: byte)) = (v :: uint16)"
  by (rule bit_word_eqI) (auto simp: bit_simps)

lemma read16: 
  "sliceFrom b p \<bind> Uint16 =
     (if p + 2 \<le> length b then Some (ucast (b ! p) OR push_bit 8 (ucast (b ! Suc p))) else None)"
  by (auto simp: sliceFrom_def Uint16_def)

lemma nkeys_bytes:
  "nkeys b = (if 4 \<le> length b then Some (ucast (b ! 2) OR push_bit 8 (ucast (b ! 3))) else None)"
  by (auto simp: nkeys_def slice_def Uint16_def numeral_3_eq_3 numeral_2_eq_2)

lemma write16:
  assumes "updFrom b p (PutUint16 v) = Some b'"
  shows "length b' = length b" "p + 2 \<le> length b"
    "b' ! p = ucast v" "b' ! Suc p = ucast (drop_bit 8 v)"
    "\<And>i. i \<noteq> p \<Longrightarrow> i \<noteq> Suc p \<Longrightarrow> b' ! i = b ! i"
proof -
  from assms have len: "p + 2 \<le> length b"
    and b': "b' = take p b @ (drop p b)[0 := ucast v, 1 := ucast (drop_bit 8 v)]"
    by (auto simp: updFrom_def sliceFrom_def PutUint16_def split: if_splits)
  from len b' show "length b' = length b" by simp
  from len show "p + 2 \<le> length b" .
  from len b' show "b' ! p = ucast v" by (simp add: nth_append)
  from len b' show "b' ! Suc p = ucast (drop_bit 8 v)" by (simp add: nth_append)
  fix i assume "i \<noteq> p" "i \<noteq> Suc p"
  with len b' show "b' ! i = b ! i"
    by (cases "i < p") (auto simp: nth_append nth_list_update)
qed

lemma write64:
  assumes "updFrom b p (PutUint64 v) = Some b'"
  shows "length b' = length b" "\<And>i. i < p \<or> p + 8 \<le> i \<Longrightarrow> b' ! i = b ! i"
proof -
  from assms obtain d' where len: "p + 8 \<le> length b"
    and d': "PutUint64 v (drop p b) = Some d'" and b': "b' = take p b @ d'"
    by (auto simp: updFrom_def sliceFrom_def PutUint64_def split: if_splits)
  from d' have ld: "length d' = length b - p"
    by (auto simp: PutUint64_def split: if_splits)
  from d' have nd: "\<And>j. 8 \<le> j \<Longrightarrow> d' ! j = drop p b ! j"
    by (auto simp: PutUint64_def split: if_splits)
  from len b' ld show "length b' = length b" by simp
  fix i assume "i < p \<or> p + 8 \<le> i"
  then show "b' ! i = b ! i"
  proof
    assume "i < p" with len b' show ?thesis by (simp add: nth_append)
  next
    assume i: "p + 8 \<le> i"
    then have "b' ! i = d' ! (i - p)" using len b' by (simp add: nth_append)
    also have "\<dots> = drop p b ! (i - p)" using i by (intro nd) simp
    also have "\<dots> = b ! i" using i len by simp
    finally show ?thesis .
  qed
qed

lemma writeCopyFrom:
  assumes "updFrom b p (\<lambda>d. Some (copy d src)) = Some b'"
  shows "length b' = length b" "\<And>i. i < p \<Longrightarrow> b' ! i = b ! i"
proof -
  from assms have len: "p \<le> length b" and b': "b' = take p b @ copy (drop p b) src"
    by (auto simp: updFrom_def sliceFrom_def split: if_splits)
  have "length (copy (drop p b) src) = length b - p"
    by (simp add: copy_def)
  with len b' show "length b' = length b" by simp
  fix i assume "i < p"
  with len b' show "b' ! i = b ! i" by (simp add: nth_append)
qed

lemma writeCopySlice:
  assumes "updSlice b lo hi (\<lambda>d. Some (copy d src)) = Some b'"
  shows "length b' = length b" "\<And>i. i < lo \<Longrightarrow> b' ! i = b ! i"
proof -
  from assms have len: "lo \<le> hi" "hi \<le> length b"
    and b': "b' = take lo b @ copy (take (hi - lo) (drop lo b)) src @ drop hi b"
    by (auto simp: updSlice_def slice_def split: if_splits)
  have "length (copy (take (hi - lo) (drop lo b)) src) = hi - lo"
    using len by (simp add: copy_def)
  with len b' show "length b' = length b" by simp
  fix i assume "i < lo"
  with len b' show "b' ! i = b ! i" by (simp add: nth_append)
qed

lemma setHeader_result:
  assumes "setHeader b bt n = Some b'"
  shows "length b' = length b" "4 \<le> length b" "nkeys b' = Some n"
    "\<And>i. 4 \<le> i \<Longrightarrow> b' ! i = b ! i"
proof -
  from assms obtain b1 where
    b1: "updSlice b 0 2 (PutUint16 bt) = Some b1" and b': "updSlice b1 2 4 (PutUint16 n) = Some b'"
    by (auto simp: setHeader_def split: Option.bind_splits)
  from b1 have l1: "2 \<le> length b"
    and e1: "b1 = (take 2 b)[0 := ucast bt, 1 := ucast (drop_bit 8 bt)] @ drop 2 b"
    by (auto simp: updSlice_def slice_def PutUint16_def split: if_splits)
  then have len1: "length b1 = length b" by simp
  from b' have l2: "4 \<le> length b1"
    and e2: "b' = take 2 b1 @ (take 2 (drop 2 b1))[0 := ucast n, 1 := ucast (drop_bit 8 n)] @ drop 4 b1"
    by (auto simp: updSlice_def slice_def PutUint16_def split: if_splits)
  from l2 e2 have len2: "length b' = length b1" by simp
  with len1 show "length b' = length b" by simp
  from l2 len1 show "4 \<le> length b" by simp
  have "b' ! 2 = ucast n" "b' ! 3 = ucast (drop_bit 8 n)"
    using l2 e2 by (simp_all add: nth_append)
  with len2 l2 show "nkeys b' = Some n"
    by (simp add: nkeys_bytes Uint16_roundtrip)
  fix i :: nat assume i: "4 \<le> i"
  let ?h = "take 2 b1 @ (take 2 (drop 2 b1))[0 := ucast n, 1 := ucast (drop_bit 8 n)]"
  have "length ?h = 4" using l2 by simp
  moreover have "b' = ?h @ drop 4 b1" using e2 by simp
  ultimately have "b' ! i = drop 4 b1 ! (i - 4)" using i by (simp only: nth_append) simp
  also have "\<dots> = b1 ! i" using i l2 by simp
  also have "\<dots> = drop 2 b ! (i - 2)"
  proof -
    have "length ((take 2 b)[0 := ucast bt, 1 := ucast (drop_bit 8 bt)]) = 2" using l1 by simp
    with e1 i show ?thesis by (simp only: nth_append) simp
  qed
  also have "\<dots> = b ! (2 + (i - 2))" using l1 by (simp only: nth_drop)
  also have "2 + (i - 2) = i" using i by simp
  finally show "b' ! i = b ! i" .
qed

subsection \<open>Positions of a node with few keys\<close>

lemma unat_kv_start:
  fixes nk :: uint16
  assumes "unat nk \<le> 408"
  shows "unat (4 + 8 * (nk + 1) + 2 * (nk + 1)) = 14 + 10 * unat nk"
proof (rule of_nat_inverse)
  show "word_of_nat (14 + 10 * unat nk) = 4 + 8 * (nk + 1) + 2 * (nk + 1)"
    by (simp add: distrib_left)
  show "14 + 10 * unat nk < 2 ^ LENGTH(16)" using assms by simp
qed

lemma unat_offset_slot_last:
  fixes nk :: uint16
  assumes "unat nk \<le> 408"
  shows "unat (4 + 8 * (nk + 1) + 2 * (nk + 1 - 1)) = 12 + 10 * unat nk"
proof (rule of_nat_inverse)
  show "word_of_nat (12 + 10 * unat nk) = 4 + 8 * (nk + 1) + 2 * (nk + 1 - 1)"
    by (simp add: distrib_left)
  show "12 + 10 * unat nk < 2 ^ LENGTH(16)" using assms by simp
qed

lemma unat_ptr_slot:
  fixes nk :: uint16
  assumes "unat nk \<le> 408"
  shows "unat (4 + 8 * nk) = 4 + 8 * unat nk"
proof (rule of_nat_inverse)
  show "word_of_nat (4 + 8 * unat nk) = 4 + 8 * nk"
    by simp
  show "4 + 8 * unat nk < 2 ^ LENGTH(16)" using assms by simp
qed

lemma unat_slot:
  fixes nk j :: uint16
  assumes "unat nk \<le> 408" "unat j \<le> unat nk + 1"
  shows "unat (4 + 8 * (nk + 1) + 2 * (j - 1)) = 10 + 8 * unat nk + 2 * unat j"
proof (rule of_nat_inverse)
  show "word_of_nat (10 + 8 * unat nk + 2 * unat j) = 4 + 8 * (nk + 1) + 2 * (j - 1)"
    by (simp add: distrib_left right_diff_distrib)
  show "10 + 8 * unat nk + 2 * unat j < 2 ^ LENGTH(16)" using assms by simp
qed

lemma unat_succ_small:
  fixes idx :: uint16
  assumes "unat idx \<le> 408"
  shows "unat (idx + 1) = unat idx + 1"
  using assms by (intro of_nat_inverse) simp_all

lemma succ_nonzero:
  fixes nk :: uint16
  assumes "unat nk \<le> 408"
  shows "nk + 1 \<noteq> 0"
proof
  assume "nk + 1 = 0"
  then have "unat (nk + 1) = 0" by simp
  moreover have "unat (nk + 1) = unat nk + 1"
    using assms by (intro of_nat_inverse) simp_all
  ultimately show False by simp
qed

lemma pos_steps:
  fixes pos :: uint16
  assumes "unat pos + 4 + k + v \<le> 4096"
  shows "unat (pos + 2) = unat pos + 2" "unat (pos + 4) = unat pos + 4"
    "unat (pos + 4 + of_nat k) = unat pos + 4 + k"
    "unat (pos + 4 + of_nat (k + v)) = unat pos + 4 + k + v"
proof -
  show "unat (pos + 2) = unat pos + 2"
    using assms by (intro of_nat_inverse) simp_all
  show "unat (pos + 4) = unat pos + 4"
    using assms by (intro of_nat_inverse) simp_all
  show "unat (pos + 4 + of_nat k) = unat pos + 4 + k"
    using assms by (intro of_nat_inverse) simp_all
  show "unat (pos + 4 + of_nat (k + v)) = unat pos + 4 + k + v"
    using assms by (intro of_nat_inverse) simp_all
qed

subsection \<open>What the codec reads after a write elsewhere\<close>

lemma agreeBelow_trans: "agreeBelow m a b \<Longrightarrow> agreeBelow m b c \<Longrightarrow> agreeBelow m a c"
  by (simp add: agreeBelow_def)

lemma agreeBelow_write16:
  "updFrom b p (PutUint16 v) = Some b' \<Longrightarrow> m \<le> p \<Longrightarrow> agreeBelow m b b'"
  using write16(1,5)[of b p v b'] by (simp add: agreeBelow_def)

lemma agreeBelow_copyFrom:
  "updFrom b p (\<lambda>d. Some (copy d src)) = Some b' \<Longrightarrow> m \<le> p \<Longrightarrow> agreeBelow m b b'"
  using writeCopyFrom[of b p src b'] by (simp add: agreeBelow_def)

lemma agreeBelow_copySlice:
  "updSlice b lo hi (\<lambda>d. Some (copy d src)) = Some b' \<Longrightarrow> m \<le> lo \<Longrightarrow> agreeBelow m b b'"
  using writeCopySlice[of b lo hi src b'] by (simp add: agreeBelow_def)

lemma getOffset_zero: "getOffset b 0 = Some 0"
  by (simp add: getOffset_def)

lemma getOffset_bytes:
  assumes "nkeys b = Some n" "idx \<noteq> 0"
  shows "getOffset b idx =
     (if unat (4 + 8 * n + 2 * (idx - 1)) + 2 \<le> length b
      then Some (ucast (b ! unat (4 + 8 * n + 2 * (idx - 1)))
                 OR push_bit 8 (ucast (b ! Suc (unat (4 + 8 * n + 2 * (idx - 1))))))
      else None)"
  using assms by (simp add: getOffset_def offsetIdx_def HEADER_SIZE_def read16)

lemma kvPos_eq:
  "nkeys b = Some n \<Longrightarrow> getOffset b idx = Some off \<Longrightarrow> kvPos b idx = Some (4 + 8 * n + 2 * n + off)"
  by (simp add: kvPos_def HEADER_SIZE_def)

lemma getOffset_cong:
  assumes "nkeys b = Some n" "nkeys b' = Some n" "length b' = length b"
    and "b' ! unat (4 + 8 * n + 2 * (j - 1)) = b ! unat (4 + 8 * n + 2 * (j - 1))"
    and "b' ! Suc (unat (4 + 8 * n + 2 * (j - 1))) = b ! Suc (unat (4 + 8 * n + 2 * (j - 1)))"
  shows "getOffset b' j = getOffset b j"
proof (cases "j = 0")
  case True
  then show ?thesis by (simp add: getOffset_zero)
next
  case False
  show ?thesis
    unfolding getOffset_bytes[OF assms(1) False] getOffset_bytes[OF assms(2) False]
    by (simp only: assms(3,4,5))
qed

lemma setPtr_result:
  "setPtr b idx v = Some b' \<Longrightarrow> updFrom b (unat (4 + 8 * idx)) (PutUint64 v) = Some b'"
  by (simp add: setPtr_def HEADER_SIZE_def)

lemma setOffset_result:
  "setOffset b idx v = Some b' \<Longrightarrow> nkeys b = Some n \<Longrightarrow>
   updFrom b (unat (4 + 8 * n + 2 * (idx - 1))) (PutUint16 v) = Some b'"
  by (simp add: setOffset_def offsetIdx_def HEADER_SIZE_def)

lemma nodeAppendRange_result:
  assumes "nodeAppendRange s new old dstNew srcOld n = Some s'"
  obtains p src b' where "kvPos (s new) srcOld = Some p"
    "updSlice (s new) (unat p) (unat (p + n)) (\<lambda>dst. Some (copy dst src)) = Some b'"
    "s' = s(new := b')"
  using assms by (auto simp: nodeAppendRange_def split: Option.bind_splits)

lemma nodeAppendKV_result:
  assumes "nodeAppendKV s new idx ptr key val = Some s'"
  obtains a1 pos a2 a3 a4 a5 off a6 where
    "setPtr (s new) idx ptr = Some a1"
    "kvPos a1 idx = Some pos"
    "updFrom a1 (unat pos) (PutUint16 (of_nat (length key))) = Some a2"
    "updFrom a2 (unat (pos + 2)) (PutUint16 (of_nat (length val))) = Some a3"
    "updFrom a3 (unat (pos + 4)) (\<lambda>dst. Some (copy dst key)) = Some a4"
    "updFrom a4 (unat (pos + 4 + of_nat (length key))) (\<lambda>dst. Some (copy dst val)) = Some a5"
    "getOffset a5 idx = Some off"
    "setOffset a5 (idx + 1) (off + 4 + of_nat (length key + length val)) = Some a6"
    "s' = s(new := a6)"
  using assms by (auto simp: nodeAppendKV_def split: Option.bind_splits)

subsection \<open>A node with a clean offset table\<close>

lemma agreeBelow_agreeTable:
  "agreeBelow (14 + 10 * unat nk) b b' \<Longrightarrow> agreeTable nk b b'"
  by (simp add: agreeBelow_def agreeTable_def)

lemma tableClean_agree:
  assumes "tableClean nk b" "agreeTable nk b b'"
  shows "tableClean nk b'"
proof -
  from assms(2) have len: "length b' = length b" and hd: "b' ! 2 = b ! 2" "b' ! 3 = b ! 3"
    and tab: "\<And>i. 12 + 8 * unat nk \<le> i \<Longrightarrow> i < 14 + 10 * unat nk \<Longrightarrow> b' ! i = b ! i"
    by (simp_all add: agreeTable_def)
  have "nkeys b' = nkeys b" using len hd by (simp add: nkeys_bytes)
  with assms(1) len tab show ?thesis by (simp add: tableClean_def)
qed

lemma agreeTable_setPtr:
  assumes "updFrom b (4 + 8 * unat idx) (PutUint64 v) = Some b'" "unat idx \<le> unat nk"
  shows "agreeTable nk b b'"
proof -
  note f = write64[OF assms(1)]
  have "b' ! 2 = b ! 2" "b' ! 3 = b ! 3" by (simp_all add: f(2))
  moreover have "b' ! i = b ! i" if "12 + 8 * unat nk \<le> i" for i
    using that assms(2) by (intro f(2)) simp
  ultimately show ?thesis using f(1) by (simp add: agreeTable_def)
qed

lemma getOffset_clean:
  assumes clean: "tableClean nk b" and small: "unat nk \<le> 408"
    and j: "unat j \<le> unat nk + 1"
    and rd: "getOffset b j = Some off"
  shows "off = 0"
proof (cases "j = 0")
  case True
  with rd show ?thesis by (simp add: getOffset_zero)
next
  case False
  then have j1: "1 \<le> unat j" by (simp add: unat_gt_0 Suc_le_eq)
  let ?p = "unat (4 + 8 * (nk + 1) + 2 * (j - 1))"
  have p: "?p = 10 + 8 * unat nk + 2 * unat j" using small j by (rule unat_slot)
  from clean have nk: "nkeys b = Some (nk + 1)" by (simp add: tableClean_def)
  have rdb: "getOffset b j =
     (if ?p + 2 \<le> length b then Some (ucast (b ! ?p) OR push_bit 8 (ucast (b ! Suc ?p)))
      else None)"
    using nk False by (rule getOffset_bytes)
  with rd have len: "?p + 2 \<le> length b" by (simp split: if_splits)
  have "b ! ?p = 0" "b ! Suc ?p = 0"
    using clean len j j1 unfolding p by (simp_all add: tableClean_def)
  with rdb rd len show ?thesis by (simp only: if_True) simp
qed

lemma kvPos_clean:
  assumes clean: "tableClean nk b" and small: "unat nk \<le> 408"
    and j: "unat j \<le> unat nk + 1"
    and rd: "kvPos b j = Some pos"
  shows "pos = 4 + 8 * (nk + 1) + 2 * (nk + 1)" "unat pos = 14 + 10 * unat nk"
proof -
  from clean have nk: "nkeys b = Some (nk + 1)" by (simp add: tableClean_def)
  from rd nk obtain off where off: "getOffset b j = Some off"
    by (auto simp: kvPos_def split: Option.bind_splits)
  have "off = 0" by (rule getOffset_clean[OF clean small j off])
  with off have off0: "getOffset b j = Some 0" by simp
  have "kvPos b j = Some (4 + 8 * (nk + 1) + 2 * (nk + 1) + 0)"
    by (rule kvPos_eq[OF nk off0])
  with rd show "pos = 4 + 8 * (nk + 1) + 2 * (nk + 1)" by simp
  then show "unat pos = 14 + 10 * unat nk" by (simp only: unat_kv_start[OF small])
qed

subsection \<open>More facts about the example leaf\<close>

lemma leafInsert_bdf_end_returns:
  "\<exists>s'. leafInsert (twoBuffers zeroPage leaf_bdf) 0 1 3 [0x67] [0x37] = Some s'"
  by (simp add: codec_defs builder_defs twoBuffers_def zeroPage_def leaf_bdf_def nth_append)

lemma getOffset_leaf_bdf: "getOffset leaf_bdf 3 = Some 18"
  by (simp add: codec_defs leaf_bdf_def nth_append)

section \<open>The claims\<close>

subsection \<open>C1: reading back an entry written by \<^verbatim>\<open>nodeAppendKV\<close>\<close>

text \<open>
  C1 says that after \<^verbatim>\<open>nodeAppendKV(new, idx, ptr, key, val)\<close> the codec reads back
  \<open>ptr\<close>, \<open>key\<close> and \<open>val\<close>. \<^verbatim>\<open>getVal\<close> reads the value length at \<^verbatim>\<open>pos+klen\<close>, while
  \<^verbatim>\<open>nodeAppendKV\<close> writes it at \<^verbatim>\<open>pos+2\<close>. On a page whose header announces a leaf with
  one key, writing the key \<open>b\<close> and the value \<open>2\<close> at index 0 reads back the pointer and the
  key, but \<^verbatim>\<open>getVal\<close> returns 256 bytes: the value followed by 255 zero bytes.
\<close>

theorem nodeAppendKV_readback:
  "map_option (\<lambda>s'. (getPtr (s' 0) 0, getKey (s' 0) 0, getVal (s' 0) 0))
     (nodeAppendKV (twoBuffers (blankLeaf 1) []) 0 0 0x1122334455667788 [0x62] [0x32])
   = Some (Some 0x1122334455667788, Some [0x62], Some (0x32 # replicate 255 0))"
  by (simp add: codec_defs builder_defs twoBuffers_def blankLeaf_def nth_append)

subsection \<open>C2: what \<^verbatim>\<open>nodeAppendRange\<close> copies\<close>

text \<open>
  C2 says that \<^verbatim>\<open>nodeAppendRange(new, old, dstNew, srcOld, n)\<close> copies \<open>n\<close> whole entries,
  child pointers included, from entry \<open>srcOld\<close> of the source to entry \<open>dstNew\<close> of the
  destination. The code copies \<open>n\<close> bytes of the key-value area and nothing else: with
  the leaf \<open>b, d, f\<close> as source, a blank three-key leaf as destination and \<open>n = 3\<close>, only
  the bytes 34, 35 and 36 of the destination are written, and the three keys read from
  it are a single zero byte each. The code also starts writing at entry \<open>srcOld\<close> of the
  destination and reading at entry \<open>dstNew\<close> of the source: with a second page holding
  the leaf \<open>b, d, f\<close> as destination, \<open>dstNew = 0\<close>, \<open>srcOld = 1\<close> and the six bytes of one
  entry, the destination should read \<open>d, d, f\<close> and reads \<open>b, b, f\<close>.
\<close>

theorem nodeAppendRange_copies_bytes:
  "map_option (\<lambda>s'. (s' 0, map (getKey (s' 0)) [0, 1, 2]))
     (nodeAppendRange (twoBuffers (blankLeaf 3) leaf_bdf) 0 1 0 0 3)
   = Some ([1, 0, 3, 0] @ replicate 30 0 @ [1, 0, 1] @ replicate 4059 0,
           [Some [0], Some [0], Some [0]])
   \<and> map_option (\<lambda>s'. map (getKey (s' 0)) [0, 1, 2])
     (nodeAppendRange (twoBuffers leaf_bdf leaf_bdf) 0 1 0 1 6)
   = Some [Some [0x62], Some [0x62], Some [0x66]]"
  by (simp add: codec_defs builder_defs twoBuffers_def blankLeaf_def leaf_bdf_def nth_append)

subsection \<open>C3: \<^verbatim>\<open>leafInsert\<close> in general\<close>

text \<open>
  C3 says that \<^verbatim>\<open>leafInsert(new, old, idx, key, val)\<close> builds the old entries with the
  new one inserted at \<open>idx\<close>. Inserting the key \<open>a\<close> at index 0 of the leaf \<open>b, d, f\<close>
  should give the keys \<open>a, b, d, f\<close>; the node built has the keys \<open>a\<close>, empty, \<open>a\<close>, \<open>a\<close>.
\<close>

theorem leafInsert_front_result:
  "map_option (\<lambda>s'. map (getKey (s' 0)) [0, 1, 2, 3])
     (leafInsert (twoBuffers zeroPage leaf_bdf) 0 1 0 [0x61] [0x31])
   = Some [Some [0x61], Some [], Some [0x61], Some [0x61]]"
  by (simp add: codec_defs builder_defs twoBuffers_def zeroPage_def leaf_bdf_def nth_append)

subsection \<open>C4: the scenario of the specification\<close>

text \<open>
  C4 is the scenario: inserting the key \<open>c\<close> with value \<open>3\<close> at index 1 of the leaf
  \<open>b, d, f\<close> should give the keys \<open>b, c, d, f\<close>, the values \<open>2, 3, 4, 6\<close>, a key count
  of 4 and 6 bytes more than the 52 bytes of the old node. The node built has a key
  count of 4, but its keys are \<open>c\<close>, \<open>c\<close>, empty, \<open>c\<close>, its values are \<open>3\<close> followed by
  255 zero bytes (three times) and the empty value, and its \<^verbatim>\<open>nbytes()\<close> is 44.
\<close>

theorem leafInsert_scenario_result:
  "map_option (\<lambda>s'. (nkeys (s' 0), map (getKey (s' 0)) [0, 1, 2, 3],
                      map (getVal (s' 0)) [0, 1, 2, 3], nbytes (s' 0)))
     (leafInsert (twoBuffers zeroPage leaf_bdf) 0 1 1 [0x63] [0x33])
   = Some (Some 4, [Some [0x63], Some [0x63], Some [], Some [0x63]],
           [Some (0x33 # replicate 255 0), Some (0x33 # replicate 255 0), Some [],
            Some (0x33 # replicate 255 0)], Some 44)
   \<and> nbytes leaf_bdf = Some 52"
  by (simp add: codec_defs builder_defs twoBuffers_def zeroPage_def leaf_bdf_def nth_append)

subsection \<open>C5: \<^verbatim>\<open>nodeLookupLE\<close>\<close>

text \<open>
  C5: for a node whose keys at the indices \<open>1 .. nkeys - 1\<close> are readable and strictly
  ascending, \<^verbatim>\<open>nodeLookupLE(node, k)\<close> returns, and what it returns is the largest index
  \<open>i\<close> in \<open>1 .. nkeys - 1\<close> with \<open>key[i] \<le> k\<close>, or 0 when there is no such index.
\<close>

theorem nodeLookupLE_greatest_le:
  assumes nk: "nkeys node = Some nk"
    and rd: "keysReadable node nk"
    and asc: "keysAscending node nk"
  shows "\<exists>r. nodeLookupLE node k = Some r \<and>
     (if \<exists>i ki. 1 \<le> i \<and> i < nk \<and> getKey node i = Some ki \<and> bytesCompare ki k \<le> 0
      then 1 \<le> r \<and> r < nk \<and> (\<exists>kr. getKey node r = Some kr \<and> bytesCompare kr k \<le> 0)
           \<and> (\<forall>i ki. 1 \<le> i \<and> i < nk \<and> getKey node i = Some ki \<and> bytesCompare ki k \<le> 0
                  \<longrightarrow> i \<le> r)
      else r = 0)"
proof -
  have "\<forall>j. 1 \<le> j \<and> j < nk \<longrightarrow> getKey node j \<noteq> None"
    using rd by (simp add: keysReadable_def)
  from LE_loop_spec[OF asc order_refl this, of k 0]
  obtain r where run: "nodeLookupLE_loop node k nk 1 0 = Some r"
    and alt: "(r = 0 \<and> (\<forall>j kj. 1 \<le> j \<and> j < nk \<and> getKey node j = Some kj \<longrightarrow> 0 < bytesCompare kj k))
      \<or> (1 \<le> r \<and> r < nk \<and> (\<exists>kr. getKey node r = Some kr \<and> bytesCompare kr k \<le> 0)
          \<and> (\<forall>j kj. r < j \<and> j < nk \<and> getKey node j = Some kj \<longrightarrow> 0 < bytesCompare kj k))"
    by blast
  have res: "nodeLookupLE node k = Some r"
    using nk run by (simp add: nodeLookupLE_def)
  from alt show ?thesis
  proof
    assume a: "r = 0 \<and> (\<forall>j kj. 1 \<le> j \<and> j < nk \<and> getKey node j = Some kj \<longrightarrow> 0 < bytesCompare kj k)"
    then have "\<not> (\<exists>i ki. 1 \<le> i \<and> i < nk \<and> getKey node i = Some ki \<and> bytesCompare ki k \<le> 0)"
      by (meson not_less)
    with a res show ?thesis by simp
  next
    assume a: "1 \<le> r \<and> r < nk \<and> (\<exists>kr. getKey node r = Some kr \<and> bytesCompare kr k \<le> 0)
          \<and> (\<forall>j kj. r < j \<and> j < nk \<and> getKey node j = Some kj \<longrightarrow> 0 < bytesCompare kj k)"
    then have ex: "\<exists>i ki. 1 \<le> i \<and> i < nk \<and> getKey node i = Some ki \<and> bytesCompare ki k \<le> 0"
      by blast
    have "i \<le> r" if "1 \<le> i" "i < nk" "getKey node i = Some ki" "bytesCompare ki k \<le> 0" for i ki
    proof (rule ccontr)
      assume "\<not> i \<le> r"
      then have "r < i" by simp
      with a that have "0 < bytesCompare ki k" by blast
      with that show False by simp
    qed
    with a ex res show ?thesis by auto
  qed
qed

text \<open>
  Witness for C5: the leaf \<open>b, d, f\<close> with the search key \<open>e\<close>, where the lookup
  returns index 1, the key \<open>d\<close>.
\<close>

theorem nodeLookupLE_greatest_le_witness:
  "nkeys leaf_bdf = Some 3 \<and> keysReadable leaf_bdf 3 \<and> keysAscending leaf_bdf 3
   \<and> nodeLookupLE leaf_bdf [0x65] = Some 1 \<and> getKey leaf_bdf 1 = Some [0x64]
   \<and> bytesCompare [0x64] [0x65] \<le> 0"
  using nodeLookupLE_greatest_le [OF nkeys_leaf_bdf keysReadable_leaf_bdf keysAscending_leaf_bdf,
      of "[0x65]"]
  by (simp add: nkeys_leaf_bdf keysReadable_leaf_bdf keysAscending_leaf_bdf
      nodeLookupLE_leaf_bdf getKey_leaf_bdf)

subsection \<open>C6: \<^verbatim>\<open>nodeLookupEQ\<close>\<close>

text \<open>
  C6: \<^verbatim>\<open>nodeLookupEQ(node, k)\<close> returns 0 exactly when no index in \<open>1 .. nkeys - 1\<close>
  holds a key equal to \<open>k\<close>; otherwise it returns the first such index, which is never 0
  and, when the keys are strictly ascending, is the only one. It returns whenever the
  keys at these indices are readable.
\<close>

theorem nodeLookupEQ_sentinel:
  assumes nk: "nkeys node = Some nk"
  shows "(keysReadable node nk \<longrightarrow> (\<exists>r. nodeLookupEQ node k = Some r))
       \<and> (\<forall>r. nodeLookupEQ node k = Some r \<longrightarrow>
            (r = 0 \<longleftrightarrow> \<not> (\<exists>i. 1 \<le> i \<and> i < nk \<and> getKey node i = Some k))
          \<and> (r \<noteq> 0 \<longrightarrow> 1 \<le> r \<and> r < nk \<and> getKey node r = Some k
                \<and> (\<forall>j. 1 \<le> j \<and> j < r \<longrightarrow> getKey node j \<noteq> Some k)
                \<and> (keysAscending node nk \<longrightarrow>
                      (\<forall>i. 1 \<le> i \<and> i < nk \<and> getKey node i = Some k \<longrightarrow> i = r))))"
proof -
  have returns: "\<exists>r. nodeLookupEQ node k = Some r" if "keysReadable node nk"
  proof -
    from that have "\<forall>j. 1 \<le> j \<and> j < nk \<longrightarrow> getKey node j \<noteq> None"
      by (simp add: keysReadable_def)
    then have "\<exists>r. nodeLookupEQ_loop node k nk 1 = Some r" by (rule EQ_loop_returns)
    then show ?thesis using nk by (simp add: nodeLookupEQ_def)
  qed
  have result: "(r = 0 \<longleftrightarrow> \<not> (\<exists>i. 1 \<le> i \<and> i < nk \<and> getKey node i = Some k))
          \<and> (r \<noteq> 0 \<longrightarrow> 1 \<le> r \<and> r < nk \<and> getKey node r = Some k
                \<and> (\<forall>j. 1 \<le> j \<and> j < r \<longrightarrow> getKey node j \<noteq> Some k)
                \<and> (keysAscending node nk \<longrightarrow>
                      (\<forall>i. 1 \<le> i \<and> i < nk \<and> getKey node i = Some k \<longrightarrow> i = r)))"
    if "nodeLookupEQ node k = Some r" for r
  proof -
    from that have run: "nodeLookupEQ_loop node k nk 1 = Some r"
      using nk by (simp add: nodeLookupEQ_def)
    have one: "1 \<le> r \<Longrightarrow> r \<noteq> 0" by unat_arith
    from EQ_loop_spec[OF run order_refl]
    consider (none) "r = 0" "\<forall>j. 1 \<le> j \<and> j < nk \<longrightarrow> getKey node j \<noteq> Some k"
      | (hit) "1 \<le> r" "r < nk" "getKey node r = Some k"
          "\<forall>j. 1 \<le> j \<and> j < r \<longrightarrow> getKey node j \<noteq> Some k"
      by blast
    then show ?thesis
    proof cases
      case none
      then show ?thesis by simp
    next
      case hit
      from hit(1) have "r \<noteq> 0" by (rule one)
      moreover have "\<exists>i. 1 \<le> i \<and> i < nk \<and> getKey node i = Some k"
        using hit(1-3) by blast
      moreover have "i = r"
        if asc: "keysAscending node nk" and i: "1 \<le> i" "i < nk" "getKey node i = Some k" for i
      proof (rule ccontr)
        assume "i \<noteq> r"
        moreover have "\<not> i < r" using hit(4) i by blast
        ultimately have "r < i" by simp
        with asc hit(1,3) i have "bytesCompare k k < 0"
          unfolding keysAscending_def by blast
        moreover have "bytesCompare k k = 0" by (simp add: bytesCompare_eq0)
        ultimately show False by simp
      qed
      ultimately show ?thesis using hit by blast
    qed
  qed
  from returns result show ?thesis by blast
qed

text \<open>
  Witness for C6: the leaf \<open>b, d, f\<close> with the search key \<open>f\<close>, found at index 2 and
  nowhere else.
\<close>

theorem nodeLookupEQ_sentinel_witness:
  "nkeys leaf_bdf = Some 3 \<and> keysReadable leaf_bdf 3 \<and> keysAscending leaf_bdf 3
   \<and> nodeLookupEQ leaf_bdf [0x66] = Some 2 \<and> (2 :: uint16) \<noteq> 0
   \<and> (2 :: uint16) < 3 \<and> getKey leaf_bdf 2 = Some [0x66]
   \<and> getKey leaf_bdf 1 \<noteq> Some [0x66]"
proof -
  note spec = nodeLookupEQ_sentinel [OF nkeys_leaf_bdf, of "[0x66]"]
  have two: "(2 :: uint16) \<noteq> 0" by simp
  from spec obtain r where r: "nodeLookupEQ leaf_bdf [0x66] = Some r"
    using keysReadable_leaf_bdf by blast
  then have "r = 2" by (simp add: nodeLookupEQ_leaf_bdf)
  with r spec two have found: "(2 :: uint16) < 3 \<and> getKey leaf_bdf 2 = Some [0x66]" by blast
  from r \<open>r = 2\<close> spec two keysAscending_leaf_bdf
  have only: "\<forall>i. 1 \<le> i \<and> i < 3 \<and> getKey leaf_bdf i = Some [0x66] \<longrightarrow> i = 2" by blast
  have "getKey leaf_bdf 1 \<noteq> Some [0x66]"
  proof
    assume "getKey leaf_bdf 1 = Some [0x66]"
    moreover have "(1 :: uint16) \<le> 1 \<and> (1 :: uint16) < 3" by simp
    ultimately have "(1 :: uint16) = 2" using only by blast
    then show False by simp
  qed
  with r \<open>r = 2\<close> two found show ?thesis
    using nkeys_leaf_bdf keysReadable_leaf_bdf keysAscending_leaf_bdf by simp
qed

subsection \<open>C7: the page-size ceiling\<close>

text \<open>
  C7 as amended: \<^verbatim>\<open>leafInsert\<close> compares nothing with the page size, so the ceiling
  holds when its inputs fit. For every insertion index \<open>idx \<le> old.nkeys()\<close> (the range
  that the restriction written on \<^verbatim>\<open>setOffset\<close> and \<^verbatim>\<open>kvPos\<close> allows), when the
  destination is a zeroed buffer and the bytes the new node needs are at most 4096, the
  node that \<^verbatim>\<open>leafInsert\<close> builds has \<^verbatim>\<open>nbytes()\<close> at most 4096. The bytes needed are
  the header, \<open>old.nkeys() + 1\<close> pointers and offsets, the payload of the old entries and
  the new entry:
  \<open>4 + 10 * (old.nkeys() + 1) + old.getOffset(old.nkeys()) + 4 + len(key) + len(val)\<close>.
\<close>

theorem leafInsert_within_page:
  assumes fresh: "s new = replicate L 0"
    and nk: "nkeys (s old) = Some nk"
    and idx: "idx \<le> nk"
    and off: "getOffset (s old) nk = Some off"
    and fits: "4 + 10 * (unat nk + 1) + unat off + 4 + length key + length val \<le> BTREE_PAGE_SIZE"
    and run: "leafInsert s new old idx key val = Some s'"
  shows "\<exists>b. nbytes (s' new) = Some b \<and> unat b \<le> BTREE_PAGE_SIZE"
proof -
  let ?m = "14 + 10 * unat nk"
  let ?v = "of_nat (length key + length val) :: uint16"
  let ?kv = "4 + 8 * (nk + 1) + 2 * (nk + 1) :: uint16"
  have fits': "?m + 4 + length key + length val \<le> 4096"
    using fits by (simp add: BTREE_PAGE_SIZE_def)
  have small: "unat nk \<le> 408" using fits' by simp
  have ui: "unat idx \<le> unat nk" using idx by (simp add: word_le_nat_alt)
  have ui1: "unat idx \<le> unat nk + 1" using ui by simp
  have usmall: "unat idx \<le> 408" using ui small by simp
  from run nk obtain node1 s2 s3 nk' where
    hdr: "setHeader (s new) BNODE_LEAF_TYPE (nk + 1) = Some node1"
    and r1: "nodeAppendRange (s(new := node1)) new old 0 0 idx = Some s2"
    and r2: "nodeAppendKV s2 new idx 0 key val = Some s3"
    and r3: "nodeAppendRange s3 new old (idx + 1) idx (nk' - idx) = Some s'"
    by (auto simp: leafInsert_def split: Option.bind_splits)

  \<comment> \<open>after the header the offset table is all zero\<close>
  note h = setHeader_result[OF hdr]
  have c1: "tableClean nk node1"
  proof -
    have "node1 ! i = 0" if "12 + 8 * unat nk \<le> i" "i < length node1" for i
    proof -
      have "node1 ! i = s new ! i" using that(1) by (intro h(4)) simp
      also have "\<dots> = 0" using that(2) h(1) by (simp add: fresh)
      finally show ?thesis .
    qed
    with h(3) show ?thesis by (simp add: tableClean_def)
  qed

  \<comment> \<open>the first range copy\<close>
  from r1 obtain p0 src1 n2 where
    k0: "kvPos ((s(new := node1)) new) 0 = Some p0"
    and w1: "updSlice ((s(new := node1)) new) (unat p0) (unat (p0 + idx))
               (\<lambda>dst. Some (copy dst src1)) = Some n2"
    and s2: "s2 = (s(new := node1))(new := n2)"
    by (rule nodeAppendRange_result)
  have k0': "kvPos node1 0 = Some p0" using k0 by simp
  have z: "unat (0 :: uint16) \<le> unat nk + 1" by simp
  have up0: "unat p0 = ?m" by (rule kvPos_clean(2)[OF c1 small z k0'])
  have w1': "updSlice node1 (unat p0) (unat (p0 + idx)) (\<lambda>dst. Some (copy dst src1)) = Some n2"
    using w1 by simp
  have "agreeBelow ?m node1 n2" by (rule agreeBelow_copySlice[OF w1']) (simp add: up0)
  then have "agreeTable nk node1 n2" by (rule agreeBelow_agreeTable)
  with c1 have c2: "tableClean nk n2" by (rule tableClean_agree)
  have s2new: "s2 new = n2" using s2 by simp

  \<comment> \<open>the entry\<close>
  from r2 obtain a1 pos a2 a3 a4 a5 off5 a6 where
    q1: "setPtr (s2 new) idx 0 = Some a1"
    and q2: "kvPos a1 idx = Some pos"
    and q3: "updFrom a1 (unat pos) (PutUint16 (of_nat (length key))) = Some a2"
    and q4: "updFrom a2 (unat (pos + 2)) (PutUint16 (of_nat (length val))) = Some a3"
    and q5: "updFrom a3 (unat (pos + 4)) (\<lambda>dst. Some (copy dst key)) = Some a4"
    and q6: "updFrom a4 (unat (pos + 4 + of_nat (length key))) (\<lambda>dst. Some (copy dst val)) = Some a5"
    and q7: "getOffset a5 idx = Some off5"
    and q8: "setOffset a5 (idx + 1) (off5 + 4 + ?v) = Some a6"
    and s3: "s3 = s2(new := a6)"
    by (rule nodeAppendKV_result)
  have "updFrom n2 (unat (4 + 8 * idx)) (PutUint64 0) = Some a1"
    using q1 unfolding s2new by (rule setPtr_result)
  then have "updFrom n2 (4 + 8 * unat idx) (PutUint64 0) = Some a1"
    by (simp only: unat_ptr_slot[OF usmall])
  then have "agreeTable nk n2 a1" using ui by (rule agreeTable_setPtr)
  with c2 have c3: "tableClean nk a1" by (rule tableClean_agree)
  have upos: "unat pos = ?m" using c3 small ui1 q2 by (rule kvPos_clean(2))
  have hi: "unat pos + 4 + length key + length val \<le> 4096" using fits' upos by simp
  note steps = pos_steps[OF hi]
  have q4': "updFrom a2 (unat pos + 2) (PutUint16 (of_nat (length val))) = Some a3"
    using q4 by (simp only: steps)
  have q5': "updFrom a3 (unat pos + 4) (\<lambda>dst. Some (copy dst key)) = Some a4"
    using q5 by (simp only: steps)
  have q6': "updFrom a4 (unat pos + 4 + length key) (\<lambda>dst. Some (copy dst val)) = Some a5"
    using q6 by (simp only: steps)
  have "agreeBelow ?m a1 a2" using q3 by (rule agreeBelow_write16) (simp add: upos)
  moreover have "agreeBelow ?m a2 a3" using q4' by (rule agreeBelow_write16) (simp add: upos)
  moreover have "agreeBelow ?m a3 a4" using q5' by (rule agreeBelow_copyFrom) (simp add: upos)
  moreover have "agreeBelow ?m a4 a5" using q6' by (rule agreeBelow_copyFrom) (simp add: upos)
  ultimately have ag5: "agreeBelow ?m a1 a5" by (blast intro: agreeBelow_trans)
  then have "agreeTable nk a1 a5" by (rule agreeBelow_agreeTable)
  with c3 have c5: "tableClean nk a5" by (rule tableClean_agree)
  have len5: "?m + 2 \<le> length a5"
    using write16(2)[OF q3] ag5 by (simp add: agreeBelow_def upos)
  have nk5: "nkeys a5 = Some (nk + 1)" using c5 by (simp add: tableClean_def)
  have "off5 = 0" using c5 small ui1 q7 by (rule getOffset_clean)

  \<comment> \<open>the offset of the next entry goes to slot \<open>idx + 1\<close>\<close>
  let ?w = "off5 + 4 + ?v"
  let ?ps = "12 + 8 * unat nk + 2 * unat idx"
  have uw: "unat ?w = 4 + length key + length val"
    unfolding \<open>off5 = 0\<close> using fits' by (intro of_nat_inverse) simp_all
  have ui': "unat (idx + 1) = unat idx + 1" using usmall by (rule unat_succ_small)
  have eqs: "unat (4 + 8 * (nk + 1) + 2 * (idx + 1 - 1)) = ?ps"
  proof -
    have "unat (4 + 8 * (nk + 1) + 2 * (idx + 1 - 1)) = 10 + 8 * unat nk + 2 * unat (idx + 1)"
      using small by (rule unat_slot) (simp add: ui' ui)
    also have "\<dots> = ?ps" by (simp add: ui')
    finally show ?thesis .
  qed
  have "updFrom a5 (unat (4 + 8 * (nk + 1) + 2 * (idx + 1 - 1))) (PutUint16 ?w) = Some a6"
    using q8 nk5 by (rule setOffset_result)
  then have wo: "updFrom a5 ?ps (PutUint16 ?w) = Some a6"
    by (simp only: eqs)
  note fo = write16[OF wo]
  have "nkeys a6 = nkeys a5" using fo(1) fo(5)[of 2] fo(5)[of 3] by (simp add: nkeys_bytes)
  with nk5 have nk6: "nkeys a6 = Some (nk + 1)" by simp
  have off6: "getOffset a6 idx = getOffset a5 idx"
  proof (rule getOffset_cong[OF nk5 nk6 fo(1)])
    have p: "unat (4 + 8 * (nk + 1) + 2 * (idx - 1)) = 10 + 8 * unat nk + 2 * unat idx"
      using small ui1 by (rule unat_slot)
    show "a6 ! unat (4 + 8 * (nk + 1) + 2 * (idx - 1)) = a5 ! unat (4 + 8 * (nk + 1) + 2 * (idx - 1))"
      unfolding p by (rule fo(5)) simp_all
    show "a6 ! Suc (unat (4 + 8 * (nk + 1) + 2 * (idx - 1)))
        = a5 ! Suc (unat (4 + 8 * (nk + 1) + 2 * (idx - 1)))"
      unfolding p by (rule fo(5)) simp_all
  qed

  \<comment> \<open>the second range copy\<close>
  from r3 obtain p3 src3 n7 where
    k3: "kvPos (s3 new) idx = Some p3"
    and w3: "updSlice (s3 new) (unat p3) (unat (p3 + (nk' - idx)))
               (\<lambda>dst. Some (copy dst src3)) = Some n7"
    and s': "s' = s3(new := n7)"
    by (rule nodeAppendRange_result)
  have s3new: "s3 new = a6" using s3 by simp
  have "kvPos a6 idx = kvPos a5 idx" using nk5 nk6 off6 by (simp add: kvPos_def)
  with k3 s3new have "kvPos a5 idx = Some p3" by simp
  then have up3: "unat p3 = ?m" by (rule kvPos_clean(2)[OF c5 small ui1])
  have w3': "updSlice a6 (unat p3) (unat (p3 + (nk' - idx))) (\<lambda>dst. Some (copy dst src3)) = Some n7"
    using w3 unfolding s3new .
  have ag7: "agreeBelow ?m a6 n7" by (rule agreeBelow_copySlice[OF w3']) (simp add: up3)
  then have len7: "length n7 = length a6" and low7: "\<And>i. i < ?m \<Longrightarrow> n7 ! i = a6 ! i"
    by (simp_all add: agreeBelow_def)
  have "nkeys n7 = nkeys a6" using len7 low7[of 2] low7[of 3] by (simp add: nkeys_bytes)
  with nk6 have nk7: "nkeys n7 = Some (nk + 1)" by simp

  \<comment> \<open>the last slot of the table holds 0 or the size of the entry\<close>
  let ?pl = "12 + 10 * unat nk"
  have pl: "unat (4 + 8 * (nk + 1) + 2 * (nk + 1 - 1)) = ?pl"
    by (rule unat_offset_slot_last[OF small])
  have rd7: "getOffset n7 (nk + 1) =
     (if ?pl + 2 \<le> length n7
      then Some (ucast (n7 ! ?pl) OR push_bit 8 (ucast (n7 ! Suc ?pl))) else None)"
    using getOffset_bytes[OF nk7 succ_nonzero[OF small]] by (simp only: pl)
  have len7': "?pl + 2 \<le> length n7" using len5 fo(1) len7 by simp
  have b7: "n7 ! ?pl = a6 ! ?pl" "n7 ! Suc ?pl = a6 ! Suc ?pl"
    by (simp_all add: low7)
  obtain o7 where o7: "getOffset n7 (nk + 1) = Some o7" and uo7: "unat o7 \<le> 4 + length key + length val"
  proof (cases "unat idx = unat nk")
    case True
    then have "?ps = ?pl" by simp
    with fo(3,4) have "a6 ! ?pl = ucast ?w" "a6 ! Suc ?pl = ucast (drop_bit 8 ?w)" by simp_all
    with rd7 len7' b7 have "getOffset n7 (nk + 1) = Some ?w"
      by (simp only: if_True Uint16_roundtrip)
    with uw that show ?thesis by simp
  next
    case False
    with ui have lt: "unat idx < unat nk" by simp
    have ne: "?pl \<noteq> ?ps" "?pl \<noteq> Suc ?ps" "Suc ?pl \<noteq> ?ps" "Suc ?pl \<noteq> Suc ?ps"
      using lt by arith+
    have "a6 ! ?pl = a5 ! ?pl" "a6 ! Suc ?pl = a5 ! Suc ?pl"
      by (rule fo(5)[OF ne(1,2)], rule fo(5)[OF ne(3,4)])
    moreover have "a5 ! ?pl = 0" "a5 ! Suc ?pl = 0"
      using c5 len5 by (simp_all add: tableClean_def)
    ultimately have "n7 ! ?pl = 0" "n7 ! Suc ?pl = 0" using b7 by simp_all
    with rd7 len7' have "getOffset n7 (nk + 1) = Some 0" by simp
    with that show ?thesis by simp
  qed
  have "kvPos n7 (nk + 1) = Some (?kv + o7)" using nk7 o7 by (rule kvPos_eq)
  then have nb: "nbytes n7 = Some (?kv + o7)" using nk7 by (simp add: nbytes_def)
  have ukv: "unat ?kv = ?m" by (rule unat_kv_start[OF small])
  have "unat ?kv + unat o7 < 2 ^ LENGTH(16)" using ukv uo7 fits' by simp
  then have "unat (?kv + o7) = unat ?kv + unat o7" by (simp only: unat_add_lem)
  then have "unat (?kv + o7) \<le> BTREE_PAGE_SIZE"
    using ukv uo7 fits' by (simp add: BTREE_PAGE_SIZE_def)
  moreover have "s' new = n7" using s' by simp
  ultimately show ?thesis using nb by simp
qed

text \<open>
  Witness for C7 as amended: the leaf \<open>b, d, f\<close>, whose three entries take 18 bytes, and a
  zeroed page; the key \<open>c\<close> inserted at index 1 and the key \<open>g\<close> inserted at the end.
\<close>

theorem leafInsert_within_page_witness:
  "twoBuffers zeroPage leaf_bdf 0 = replicate 4096 0
   \<and> nkeys (twoBuffers zeroPage leaf_bdf 1) = Some 3
   \<and> (1 :: uint16) \<le> 3 \<and> (3 :: uint16) \<le> 3
   \<and> getOffset (twoBuffers zeroPage leaf_bdf 1) 3 = Some 18
   \<and> 4 + 10 * (unat (3 :: uint16) + 1) + unat (18 :: uint16) + 4
         + length [0x63 :: byte] + length [0x33 :: byte] \<le> BTREE_PAGE_SIZE
   \<and> (\<exists>s'. leafInsert (twoBuffers zeroPage leaf_bdf) 0 1 1 [0x63] [0x33] = Some s'
          \<and> (\<exists>b. nbytes (s' 0) = Some b \<and> unat b \<le> BTREE_PAGE_SIZE))
   \<and> (\<exists>s'. leafInsert (twoBuffers zeroPage leaf_bdf) 0 1 3 [0x67] [0x37] = Some s'
          \<and> (\<exists>b. nbytes (s' 0) = Some b \<and> unat b \<le> BTREE_PAGE_SIZE))"
proof -
  have h1: "twoBuffers zeroPage leaf_bdf 0 = replicate 4096 0"
    by (simp add: twoBuffers_def zeroPage_def)
  have h2: "nkeys (twoBuffers zeroPage leaf_bdf 1) = Some 3"
    by (simp add: twoBuffers_def nkeys_leaf_bdf)
  have h3: "(1 :: uint16) \<le> 3" and h3': "(3 :: uint16) \<le> 3" by simp_all
  have h4: "getOffset (twoBuffers zeroPage leaf_bdf 1) 3 = Some 18"
    by (simp add: twoBuffers_def getOffset_leaf_bdf)
  have h5: "4 + 10 * (unat (3 :: uint16) + 1) + unat (18 :: uint16) + 4
         + length [0x63 :: byte] + length [0x33 :: byte] \<le> BTREE_PAGE_SIZE"
    by (simp add: BTREE_PAGE_SIZE_def)
  have h5': "4 + 10 * (unat (3 :: uint16) + 1) + unat (18 :: uint16) + 4
         + length [0x67 :: byte] + length [0x37 :: byte] \<le> BTREE_PAGE_SIZE"
    by (simp add: BTREE_PAGE_SIZE_def)
  obtain s' where h6: "leafInsert (twoBuffers zeroPage leaf_bdf) 0 1 1 [0x63] [0x33] = Some s'"
    using leafInsert_bdf_returns by blast
  obtain t' where h6': "leafInsert (twoBuffers zeroPage leaf_bdf) 0 1 3 [0x67] [0x37] = Some t'"
    using leafInsert_bdf_end_returns by blast
  have "\<exists>b. nbytes (s' 0) = Some b \<and> unat b \<le> BTREE_PAGE_SIZE"
    by (rule leafInsert_within_page [OF h1 h2 h3 h4 h5 h6])
  moreover have "\<exists>b. nbytes (t' 0) = Some b \<and> unat b \<le> BTREE_PAGE_SIZE"
    by (rule leafInsert_within_page [OF h1 h2 h3' h4 h5' h6'])
  ultimately show ?thesis using h1 h2 h3 h3' h4 h5 h6 h6' by blast
qed

text \<open>
  Counterexample to C7 as stated. A key of 1000 bytes with a value of 3000 bytes, both
  within the size limits, inserted at the end of a leaf with eight keys into a zeroed
  page: \<^verbatim>\<open>leafInsert\<close> returns, the destination is still 4096 bytes long, and
  \<^verbatim>\<open>nbytes()\<close> of the node built is 4098. And the key \<open>c\<close> inserted at index 1 of the leaf
  \<open>b, d, f\<close> into a page that is not zeroed: \<^verbatim>\<open>nbytes()\<close> of the node built is 5044, the
  start of the key-value area plus the 5000 that the page held where the last offset of
  a node with four keys is stored.
\<close>

theorem leafInsert_exceeds_page:
  "leafInsert (twoBuffers zeroPage leaf8) 0 1 8 (replicate 1000 0x6b) (replicate 3000 0x76) \<noteq> None
   \<and> length (the (leafInsert (twoBuffers zeroPage leaf8) 0 1 8
                    (replicate 1000 0x6b) (replicate 3000 0x76)) 0) = BTREE_PAGE_SIZE
   \<and> nbytes (the (leafInsert (twoBuffers zeroPage leaf8) 0 1 8
                    (replicate 1000 0x6b) (replicate 3000 0x76)) 0) = Some 4098
   \<and> \<not> unat (4098 :: uint16) \<le> BTREE_PAGE_SIZE
   \<and> length (replicate 1000 (0x6b :: byte)) \<le> BTREE_MAX_KEY_SIZE
   \<and> length (replicate 3000 (0x76 :: byte)) \<le> BTREE_MAX_VAL_SIZE
   \<and> leafInsert (twoBuffers stalePage leaf_bdf) 0 1 1 [0x63] [0x33] \<noteq> None
   \<and> nbytes (the (leafInsert (twoBuffers stalePage leaf_bdf) 0 1 1 [0x63] [0x33]) 0) = Some 5044
   \<and> \<not> unat (5044 :: uint16) \<le> BTREE_PAGE_SIZE"
  by (simp add: codec_defs builder_defs twoBuffers_def zeroPage_def leaf8_def leaf_bdf_def
      stalePage_def BTREE_PAGE_SIZE_def BTREE_MAX_KEY_SIZE_def BTREE_MAX_VAL_SIZE_def nth_append)

subsection \<open>C8: the source buffer is not written\<close>

text \<open>
  C8: when the destination of \<^verbatim>\<open>leafInsert\<close>, \<^verbatim>\<open>nodeAppendRange\<close> or
  \<^verbatim>\<open>nodeAppendKV\<close> is a buffer other than the source, the source buffer holds the same
  bytes after the operation as before it.
\<close>

theorem builder_leaves_source_unchanged:
  assumes "old \<noteq> new"
  shows "(\<forall>s'. leafInsert s new old idx key val = Some s' \<longrightarrow> s' old = s old)
       \<and> (\<forall>s'. nodeAppendRange s new old dstNew srcOld n = Some s' \<longrightarrow> s' old = s old)
       \<and> (\<forall>s'. nodeAppendKV s new idx ptr key val = Some s' \<longrightarrow> s' old = s old)"
  using assms by (auto dest: leafInsert_frame nodeAppendRange_frame nodeAppendKV_frame)

text \<open>
  Witness for C8: \<^verbatim>\<open>leafInsert\<close> from the leaf \<open>b, d, f\<close> (buffer 1) into a zeroed page
  (buffer 0) returns, and buffer 1 still holds the leaf.
\<close>

theorem builder_leaves_source_unchanged_witness:
  "(1 :: nat) \<noteq> 0
   \<and> (\<exists>s'. leafInsert (twoBuffers zeroPage leaf_bdf) 0 1 1 [0x63] [0x33] = Some s'
           \<and> s' 1 = leaf_bdf)"
proof -
  have ne: "(1 :: nat) \<noteq> 0" by simp
  obtain s' where s': "leafInsert (twoBuffers zeroPage leaf_bdf) 0 1 1 [0x63] [0x33] = Some s'"
    using leafInsert_bdf_returns by blast
  with builder_leaves_source_unchanged [OF ne, of "twoBuffers zeroPage leaf_bdf" 1 "[0x63]" "[0x33]"]
  have "s' 1 = twoBuffers zeroPage leaf_bdf 1" by blast
  then have "s' 1 = leaf_bdf" by (simp add: twoBuffers_def)
  with s' ne show ?thesis by blast
qed

subsection \<open>C9: the two versions of \<^verbatim>\<open>setOffset\<close>\<close>

text \<open>
  C9 as amended: for every node, every index other than 0 and every offset, the
  \<^verbatim>\<open>setOffset\<close> of src/types/btree.go and that of src/unnamed/part\_000 have the same
  effect on the buffer, panics included.
\<close>

theorem setOffset_versions_agree_nonzero:
  "idx \<noteq> 0 \<Longrightarrow> setOffset node idx off = setOffset_part0 node idx off"
  by (simp add: setOffset_def setOffset_part0_def offsetIdx_def offsetPos_def)

text \<open>Witness for C9 as amended: index 1 of the leaf \<open>b, d, f\<close>.\<close>

theorem setOffset_versions_agree_nonzero_witness:
  "(1 :: uint16) \<noteq> 0 \<and> setOffset leaf_bdf 1 6 = setOffset_part0 leaf_bdf 1 6"
  using setOffset_versions_agree_nonzero [of 1 leaf_bdf 6] by simp

text \<open>
  Counterexample to C9 as stated: at index 0 of a blank leaf with no keys, the version of
  src/types/btree.go writes the offset 7 at position \<open>4 + 8 * 0 + 2 * (0 - 1) = 2\<close> modulo
  \<open>2 ^ 16\<close>, that is into the key count of the header, while the version of
  src/unnamed/part\_000 leaves the buffer as it is.
\<close>

theorem setOffset_versions_differ_at_zero:
  "setOffset (blankLeaf 0) 0 7 = Some (blankLeaf 7)
   \<and> setOffset_part0 (blankLeaf 0) 0 7 = Some (blankLeaf 0)
   \<and> setOffset (blankLeaf 0) 0 7 \<noteq> setOffset_part0 (blankLeaf 0) 0 7"
  by (simp add: setOffset_part0_def offsetPos_def codec_defs builder_defs blankLeaf_def)

subsection \<open>C10: the index a lookup returns is in range\<close>

text \<open>
  C10: the index returned by \<^verbatim>\<open>nodeLookupLE\<close> and by \<^verbatim>\<open>nodeLookupEQ\<close> is less than
  \<open>nkeys\<close> whenever \<open>nkeys \<ge> 1\<close>, and both return 0 for every search key whenever
  \<open>nkeys \<le> 1\<close>.
\<close>

theorem lookup_index_in_range:
  assumes "nkeys node = Some nk"
  shows "(\<forall>r. nodeLookupLE node k = Some r \<longrightarrow> 1 \<le> nk \<longrightarrow> r < nk)
       \<and> (\<forall>r. nodeLookupEQ node k = Some r \<longrightarrow> 1 \<le> nk \<longrightarrow> r < nk)
       \<and> (nk \<le> 1 \<longrightarrow> nodeLookupLE node k = Some 0 \<and> nodeLookupEQ node k = Some 0)"
proof (intro conjI allI impI)
  fix r
  assume "nodeLookupLE node k = Some r" and nk: "1 \<le> nk"
  then have "nodeLookupLE_loop node k nk 1 0 = Some r"
    using assms by (simp add: nodeLookupLE_def)
  then have "r = 0 \<or> (1 \<le> r \<and> r < nk)" by (rule LE_loop_bound)
  moreover have "0 < nk" using nk by unat_arith
  ultimately show "r < nk" by auto
next
  fix r
  assume "nodeLookupEQ node k = Some r" and nk: "1 \<le> nk"
  then have "nodeLookupEQ_loop node k nk 1 = Some r"
    using assms by (simp add: nodeLookupEQ_def)
  then have "r = 0 \<or> (1 \<le> r \<and> r < nk)"
    using EQ_loop_spec[of node k nk 1 r] by auto
  moreover have "0 < nk" using nk by unat_arith
  ultimately show "r < nk" by auto
next
  assume "nk \<le> 1"
  then have "\<not> 1 < nk" by simp
  then show "nodeLookupLE node k = Some 0"
    using assms by (simp add: nodeLookupLE_def)
next
  assume "nk \<le> 1"
  then have "\<not> 1 < nk" by simp
  then show "nodeLookupEQ node k = Some 0"
    using assms by (simp add: nodeLookupEQ_def)
qed

text \<open>
  Witness for C10: the leaf \<open>b, d, f\<close> with three keys, searched for \<open>e\<close> with
  \<^verbatim>\<open>nodeLookupLE\<close> and for \<open>f\<close> with \<^verbatim>\<open>nodeLookupEQ\<close>.
\<close>

theorem lookup_index_in_range_witness:
  "nkeys leaf_bdf = Some 3 \<and> nodeLookupLE leaf_bdf [0x65] = Some 1
   \<and> nodeLookupEQ leaf_bdf [0x66] = Some 2 \<and> (1 :: uint16) \<le> 3 \<and> (1 :: uint16) < 3 \<and> (2 :: uint16) < 3"
  using lookup_index_in_range [OF nkeys_leaf_bdf, of "[0x65]"]
    lookup_index_in_range [OF nkeys_leaf_bdf, of "[0x66]"]
  by (simp add: nkeys_leaf_bdf nodeLookupLE_leaf_bdf nodeLookupEQ_leaf_bdf)

end
